theory Spec2Isabelle
  imports Main
begin

section \<open>Chunker: \<open>split_text_into_chunks\<close> of \<open>chunked_news_extraction.py\<close>\<close>

text \<open>
  A Python \<open>str\<close> is a sequence of code points; the code point type is the type
  parameter \<open>'c\<close>. Python integers are unbounded, so \<open>start\<close>, \<open>end\<close>,
  \<open>chunk_size\<close> and \<open>overlap\<close> are of type \<open>int\<close>.
\<close>

definition CHUNK_SIZE :: int where
  "CHUNK_SIZE = 2000"

definition CHUNK_OVERLAP :: int where
  "CHUNK_OVERLAP = 100"

text \<open>
  Python's slice \<open>text[start:end]\<close>: a negative bound counts from the end of the
  sequence, every bound is clamped to \<open>0 .. len(text)\<close>, and the slice is empty when
  the lower bound is not below the upper one.
\<close>

definition slice_index :: "nat \<Rightarrow> int \<Rightarrow> nat" where
  "slice_index n i = (if i < 0 then nat (max 0 (i + int n)) else min (nat i) n)"

definition py_slice :: "'c list \<Rightarrow> int \<Rightarrow> int \<Rightarrow> 'c list" where
  "py_slice text start stop =
     (let lo = slice_index (length text) start;
          hi = slice_index (length text) stop
      in take (hi - lo) (drop lo text))"

text \<open>
  The \<open>while start < len(text)\<close> loop. Nothing in the source bounds the number of
  iterations, so the loop is a partial function: \<open>None\<close> is the run that never
  leaves the loop. The source has no \<open>raise\<close>, so there is no error branch.
\<close>

partial_function (option) split_loop ::
  "'c list \<Rightarrow> int \<Rightarrow> int \<Rightarrow> 'c list list \<Rightarrow> int \<Rightarrow> 'c list list option" where
  "split_loop text chunk_size overlap chunks start =
     (if start < int (length text) then
        (let end = start + chunk_size;
             chunk = py_slice text start end
         in split_loop text chunk_size overlap (chunks @ [chunk]) (end - overlap))
      else Some chunks)"

declare split_loop.simps [code]

definition split_text_into_chunks :: "'c list \<Rightarrow> int \<Rightarrow> int \<Rightarrow> 'c list list option" where
  "split_text_into_chunks text chunk_size overlap = split_loop text chunk_size overlap [] 0"

text \<open>
  The source returns the chunk texts only. The offsets of a chunk are those of the
  loop: iteration \<open>i\<close> (counted from 0) runs with \<open>start = i * (chunk_size - overlap)\<close>
  and cuts \<open>text[start:start + chunk_size]\<close>, which ends at the end of the text at
  the latest.
\<close>

definition start_offset :: "int \<Rightarrow> int \<Rightarrow> nat \<Rightarrow> int" where
  "start_offset chunk_size overlap i = int i * (chunk_size - overlap)"

definition end_offset :: "'c list \<Rightarrow> int \<Rightarrow> int \<Rightarrow> nat \<Rightarrow> int" where
  "end_offset text chunk_size overlap i =
     min (start_offset chunk_size overlap i + chunk_size) (int (length text))"

text \<open>The last \<open>n\<close> and the first \<open>n\<close> characters of a chunk.\<close>

definition trailing :: "nat \<Rightarrow> 'c list \<Rightarrow> 'c list" where
  "trailing n chunk = drop (length chunk - n) chunk"

definition leading :: "nat \<Rightarrow> 'c list \<Rightarrow> 'c list" where
  "leading n chunk = take n chunk"

section \<open>Merger: \<open>merge_news_results\<close> of \<open>chunked_news_extraction.py\<close>\<close>

text \<open>
  The pydantic model \<open>News\<close>: three lists of strings. \<open>ConsolidatedNews\<close> of
  \<open>test/news_extraction_playwright_test.py\<close> has the same three lists and a
  required \<open>summary\<close> string; it is written as the extension of \<open>News\<close> by that
  field.
\<close>

record 'c News =
  companies :: "'c list list"
  persons :: "'c list list"
  events :: "'c list list"

record 'c ConsolidatedNews = "'c News" +
  summary :: "'c list"

text \<open>
  \<open>str.strip()\<close> removes the leading and the trailing whitespace of a string and
  \<open>str.lower()\<close> lowercases it. Both are Python builtins driven by the Unicode
  tables: the whitespace test \<open>isspace\<close> on code points and the lowercasing
  \<open>lower\<close> on strings are parameters of the model, and \<open>ascii_isspace\<close> and
  \<open>ascii_lower\<close> are what Python computes on ASCII text.
\<close>

definition strip :: "('c \<Rightarrow> bool) \<Rightarrow> 'c list \<Rightarrow> 'c list" where
  "strip isspace s = rev (dropWhile isspace (rev (dropWhile isspace s)))"

definition ascii_isspace :: "char \<Rightarrow> bool" where
  "ascii_isspace c = ((of_char c :: nat) \<in> {9, 10, 11, 12, 13, 28, 29, 30, 31, 32})"

definition ascii_lower :: "string \<Rightarrow> string" where
  "ascii_lower s =
     map (\<lambda>c. if 65 \<le> (of_char c :: nat) \<and> (of_char c :: nat) \<le> 90
              then char_of ((of_char c :: nat) + 32) else c) s"

text \<open>
  The inner function \<open>deduplicate\<close>: the \<open>for item in items\<close> loop with its two
  mutable variables, the set \<open>seen\<close> and the list \<open>unique\<close>.
\<close>

fun deduplicate_loop ::
  "('c \<Rightarrow> bool) \<Rightarrow> ('c list \<Rightarrow> 'c list) \<Rightarrow> 'c list list \<Rightarrow> 'c list set \<Rightarrow> 'c list list
     \<Rightarrow> 'c list list" where
  "deduplicate_loop isspace lower [] seen unique = unique"
| "deduplicate_loop isspace lower (item # items) seen unique =
     (let item_normalized = lower (strip isspace item)
      in if item_normalized \<noteq> [] \<and> item_normalized \<notin> seen
         then deduplicate_loop isspace lower items
                (insert item_normalized seen) (unique @ [strip isspace item])
         else deduplicate_loop isspace lower items seen unique)"

definition deduplicate ::
  "('c \<Rightarrow> bool) \<Rightarrow> ('c list \<Rightarrow> 'c list) \<Rightarrow> 'c list list \<Rightarrow> 'c list list" where
  "deduplicate isspace lower items = deduplicate_loop isspace lower items {} []"

text \<open>The \<open>for result in results\<close> loop that extends the three flat lists.\<close>

fun extend_loop ::
  "'c News list \<Rightarrow> 'c list list \<times> 'c list list \<times> 'c list list
     \<Rightarrow> 'c list list \<times> 'c list list \<times> 'c list list" where
  "extend_loop [] acc = acc"
| "extend_loop (result # results) (all_companies, all_persons, all_events) =
     extend_loop results
       (all_companies @ companies result, all_persons @ persons result,
        all_events @ events result)"

definition merge_news_results ::
  "('c \<Rightarrow> bool) \<Rightarrow> ('c list \<Rightarrow> 'c list) \<Rightarrow> 'c News list \<Rightarrow> 'c News" where
  "merge_news_results isspace lower results =
     (case extend_loop results ([], [], []) of
        (all_companies, all_persons, all_events) \<Rightarrow>
          \<lparr>companies = deduplicate isspace lower all_companies,
           persons = deduplicate isspace lower all_persons,
           events = deduplicate isspace lower all_events\<rparr>)"

text \<open>
  What the specification says of the union merge, for one category: the items whose
  normalized key is not empty and occurs at no earlier position, each trimmed, in
  the order of the flattened list.
\<close>

definition normalized_key :: "('c \<Rightarrow> bool) \<Rightarrow> ('c list \<Rightarrow> 'c list) \<Rightarrow> 'c list \<Rightarrow> 'c list" where
  "normalized_key isspace lower item = lower (strip isspace item)"

definition first_occurrence :: "('a \<Rightarrow> 'k list) \<Rightarrow> 'a list \<Rightarrow> nat \<Rightarrow> bool" where
  "first_occurrence key items i =
     (key (items ! i) \<noteq> [] \<and> (\<forall>j<i. key (items ! j) \<noteq> key (items ! i)))"

definition union_spec ::
  "('c \<Rightarrow> bool) \<Rightarrow> ('c list \<Rightarrow> 'c list) \<Rightarrow> 'c list list \<Rightarrow> 'c list list" where
  "union_spec isspace lower items =
     map (\<lambda>i. strip isspace (items ! i))
       (filter (first_occurrence (normalized_key isspace lower) items) [0..<length items])"

definition mergeUnion_spec ::
  "('c \<Rightarrow> bool) \<Rightarrow> ('c list \<Rightarrow> 'c list) \<Rightarrow> 'c News list \<Rightarrow> 'c News" where
  "mergeUnion_spec isspace lower results =
     \<lparr>companies = union_spec isspace lower (concat (map companies results)),
      persons = union_spec isspace lower (concat (map persons results)),
      events = union_spec isspace lower (concat (map events results))\<rparr>"

section \<open>Sequential runner: \<open>extract_from_chunk\<close> and \<open>run_news_extraction\<close>\<close>

text \<open>
  Exceptions are values. The model call and the two parsers are collaborators from
  outside the repository, taken as parameters: \<open>invoke i chunk\<close> is the outcome of the
  model call made for chunk number \<open>i\<close>, \<open>parse\<close> the outcome of the pydantic parser
  on a response.
\<close>

datatype error = LoaderError | InvocationError | OutputParserException

definition extract_from_chunk ::
  "(nat \<Rightarrow> 'c list \<Rightarrow> error + 'r) \<Rightarrow> ('r \<Rightarrow> error + 'c News) \<Rightarrow> 'c list \<Rightarrow> nat
     \<Rightarrow> error + 'c News" where
  "extract_from_chunk invoke parse chunk chunk_num =
     (case invoke chunk_num chunk of
        Inl e \<Rightarrow> Inl e
      | Inr response \<Rightarrow>
          (case parse response of
             Inl parse_error \<Rightarrow> Inr \<lparr>companies = [], persons = [], events = []\<rparr>
           | Inr news \<Rightarrow> Inr news))"

text \<open>
  The loop \<open>for i, chunk in enumerate(chunks, 1)\<close>: a chunk whose extraction raises
  is logged and skipped (\<open>continue\<close>), nothing is appended for it.
\<close>

fun process_chunks ::
  "(nat \<Rightarrow> 'c list \<Rightarrow> error + 'r) \<Rightarrow> ('r \<Rightarrow> error + 'c News) \<Rightarrow> (nat \<times> 'c list) list
     \<Rightarrow> 'c News list \<Rightarrow> 'c News list" where
  "process_chunks invoke parse [] results = results"
| "process_chunks invoke parse ((i, chunk) # rest) results =
     (case extract_from_chunk invoke parse chunk i of
        Inr news \<Rightarrow> process_chunks invoke parse rest (results @ [news])
      | Inl e \<Rightarrow> process_chunks invoke parse rest results)"

text \<open>
  \<open>run_news_extraction\<close>: \<open>loader url\<close> is the outcome of \<open>loader.load()\<close>, the page
  contents of the loaded documents. \<open>None\<close> is the run whose chunking loop never
  ends.
\<close>

definition run_news_extraction ::
  "('c \<Rightarrow> bool) \<Rightarrow> ('c list \<Rightarrow> 'c list) \<Rightarrow> ('u \<Rightarrow> error + 'c list list)
     \<Rightarrow> (nat \<Rightarrow> 'c list \<Rightarrow> error + 'r) \<Rightarrow> ('r \<Rightarrow> error + 'c News) \<Rightarrow> 'u
     \<Rightarrow> (error + 'c News) option" where
  "run_news_extraction isspace lower loader invoke parse url =
     (case loader url of
        Inl e \<Rightarrow> Some (Inl e)
      | Inr docs \<Rightarrow>
          (let content = (case docs of [] \<Rightarrow> [] | d # _ \<Rightarrow> d)
           in case split_text_into_chunks content CHUNK_SIZE CHUNK_OVERLAP of
                None \<Rightarrow> None
              | Some chunks \<Rightarrow>
                  (let results = process_chunks invoke parse (enumerate 1 chunks) []
                   in Some (Inr (merge_news_results isspace lower results)))))"

text \<open>
  A merged result contains the data of a partial result when every entry of the
  partial result with a non-empty normalized key has that key in the same category
  of the merged result.
\<close>

definition contains_data ::
  "('c \<Rightarrow> bool) \<Rightarrow> ('c list \<Rightarrow> 'c list) \<Rightarrow> 'c News \<Rightarrow> 'c News \<Rightarrow> bool" where
  "contains_data isspace lower merged news =
     (list_all (\<lambda>x. normalized_key isspace lower x = [] \<or>
          normalized_key isspace lower x \<in> normalized_key isspace lower ` set (companies merged))
        (companies news) \<and>
      list_all (\<lambda>x. normalized_key isspace lower x = [] \<or>
          normalized_key isspace lower x \<in> normalized_key isspace lower ` set (persons merged))
        (persons news) \<and>
      list_all (\<lambda>x. normalized_key isspace lower x = [] \<or>
          normalized_key isspace lower x \<in> normalized_key isspace lower ` set (events merged))
        (events news))"

section \<open>Asynchronous extractor: \<open>NewsExtractor\<close> of \<open>test/news_extraction_playwright_test.py\<close>\<close>

text \<open>
  \<open>process_chunk\<close>: any exception of the model call or of the parser is caught and
  \<open>News()\<close>, with its three empty default lists, is returned. The semaphore and
  the progress bar do not change the value returned.
\<close>

definition process_chunk ::
  "(nat \<Rightarrow> 'c list \<Rightarrow> error + 'r) \<Rightarrow> ('r \<Rightarrow> error + 'c News) \<Rightarrow> 'c list \<Rightarrow> nat \<Rightarrow> 'c News" where
  "process_chunk ainvoke parse chunk chunk_id =
     (case ainvoke chunk_id chunk of
        Inl e \<Rightarrow> \<lparr>companies = [], persons = [], events = []\<rparr>
      | Inr response \<Rightarrow>
          (case parse response of
             Inl e \<Rightarrow> \<lparr>companies = [], persons = [], events = []\<rparr>
           | Inr parsed_data \<Rightarrow> parsed_data))"

text \<open>
  \<open>load_content\<close> returns the page content of the first loaded document, or the
  empty string when there is none.
\<close>

definition load_content :: "('u \<Rightarrow> error + 'c list list) \<Rightarrow> 'u \<Rightarrow> error + 'c list" where
  "load_content loader url =
     (case loader url of
        Inl e \<Rightarrow> Inl e
      | Inr docs \<Rightarrow> Inr (case docs of [] \<Rightarrow> [] | d # _ \<Rightarrow> d))"

text \<open>
  \<open>consolidate_results\<close>: the three Python sets of raw entities are the context of
  one model call; its failure and the failure of the final parser are not caught.
\<close>

record 'c context_data =
  raw_companies :: "'c list set"
  raw_persons :: "'c list set"
  raw_events :: "'c list set"

definition consolidate_results ::
  "('c context_data \<Rightarrow> error + 'r) \<Rightarrow> ('r \<Rightarrow> error + 'c ConsolidatedNews) \<Rightarrow> 'c News list
     \<Rightarrow> error + 'c ConsolidatedNews" where
  "consolidate_results final_invoke final_parse raw_results =
     (let all_companies = set (concat (map companies raw_results));
          all_persons = set (concat (map persons raw_results));
          all_events = set (concat (map events raw_results));
          context_data = \<lparr>raw_companies = all_companies, raw_persons = all_persons,
                          raw_events = all_events\<rparr>
      in case final_invoke context_data of
           Inl e \<Rightarrow> Inl e
         | Inr response \<Rightarrow> final_parse response)"

text \<open>
  \<open>run\<close>: one \<open>process_chunk\<close> task per chunk of \<open>enumerate(chunks)\<close>, awaited
  with \<open>asyncio.gather\<close>, which returns the results in the order of the tasks it
  was given; the order in which the tasks complete is not part of this model.
  \<open>split_text\<close> is the library splitter. The value is \<open>Inr None\<close> when no content
  was loaded, \<open>Inr (Some final_news)\<close> when \<open>final_news\<close> was displayed and saved,
  and \<open>Inl e\<close> when the exception \<open>e\<close> left \<open>run\<close>.
\<close>

definition gather_chunks ::
  "(nat \<Rightarrow> 'c list \<Rightarrow> error + 'r) \<Rightarrow> ('r \<Rightarrow> error + 'c News) \<Rightarrow> 'c list list \<Rightarrow> 'c News list" where
  "gather_chunks ainvoke parse chunks =
     map (\<lambda>(i, chunk). process_chunk ainvoke parse chunk i) (enumerate 0 chunks)"

definition run ::
  "('u \<Rightarrow> error + 'c list list) \<Rightarrow> ('c list \<Rightarrow> 'c list list)
     \<Rightarrow> (nat \<Rightarrow> 'c list \<Rightarrow> error + 'r) \<Rightarrow> ('r \<Rightarrow> error + 'c News)
     \<Rightarrow> ('c context_data \<Rightarrow> error + 'q) \<Rightarrow> ('q \<Rightarrow> error + 'c ConsolidatedNews) \<Rightarrow> 'u
     \<Rightarrow> error + 'c ConsolidatedNews option" where
  "run loader split_text ainvoke parse final_invoke final_parse url =
     (case load_content loader url of
        Inl e \<Rightarrow> Inl e
      | Inr content \<Rightarrow>
          if content = [] then Inr None
          else
            (let chunks = split_text content;
                 raw_results = gather_chunks ainvoke parse chunks
             in case consolidate_results final_invoke final_parse raw_results of
                  Inl e \<Rightarrow> Inl e
                | Inr final_news \<Rightarrow> Inr (Some final_news)))"

section \<open>Collaborators of the examples\<close>

text \<open>
  Concrete collaborators for the examples below: a model whose call numbered 2
  raises and whose other calls answer with the chunk itself, a chunk parser that
  reports its input as the one company found, a consolidation model that raises,
  one that answers, a final parser that rejects every response, a loader of one
  page and a splitter into one chunk.
\<close>

definition fail_on_2 :: "nat \<Rightarrow> string \<Rightarrow> error + string" where
  "fail_on_2 i chunk = (if i = 2 then Inl InvocationError else Inr chunk)"

definition company_parser :: "string \<Rightarrow> error + char News" where
  "company_parser response = Inr \<lparr>companies = [response], persons = [], events = []\<rparr>"

definition failing_model :: "char context_data \<Rightarrow> error + string" where
  "failing_model context_data = Inl InvocationError"

definition answering_model :: "char context_data \<Rightarrow> error + string" where
  "answering_model context_data = Inr ''no json''"

definition failing_parser :: "string \<Rightarrow> error + char ConsolidatedNews" where
  "failing_parser response = Inl OutputParserException"

definition page_loader :: "string \<Rightarrow> error + string list" where
  "page_loader url = Inr [''Ecopetrol'']"

definition one_chunk :: "string \<Rightarrow> string list" where
  "one_chunk content = [content]"

section \<open>Properties of the chunker\<close>

subsection \<open>Slices and the closed form of the loop\<close>

lemma slice_index_nonneg: "0 \<le> i \<Longrightarrow> slice_index n i = min (nat i) n"
  by (simp add: slice_index_def)

lemma slice_nonneg:
  assumes "0 \<le> s" and "0 \<le> c"
  shows "py_slice text s (s + c) = take (nat c) (drop (nat s) text)"
proof -
  have sc: "nat (s + c) = nat s + nat c" using assms by (simp add: nat_add_distrib)
  have "take (min (nat s + nat c) (length text) - min (nat s) (length text)) (drop (min (nat s) (length text)) text)
        = take (nat c) (drop (nat s) text)"
  proof (cases "nat s \<le> length text")
    case True
    then have m: "min (nat s) (length text) = nat s" by simp
    show ?thesis
    proof (cases "nat s + nat c \<le> length text")
      case True
      then show ?thesis using m by simp
    next
      case False
      then have "min (nat s + nat c) (length text) = length text" by simp
      moreover have "length text - nat s \<le> nat c" using False by simp
      ultimately show ?thesis using m by simp
    qed
  next
    case False
    then show ?thesis by simp
  qed
  then show ?thesis
    using assms by (simp add: py_slice_def Let_def slice_index_nonneg sc)
qed

lemma split_loop_closed:
  assumes "0 < chunk_size - overlap"
    and "\<forall>k<m. start + int k * (chunk_size - overlap) < int (length text)"
    and "int (length text) \<le> start + int m * (chunk_size - overlap)"
  shows "split_loop text chunk_size overlap chunks start =
     Some (chunks @ map (\<lambda>k. py_slice text (start + int k * (chunk_size - overlap))
                                   (start + int k * (chunk_size - overlap) + chunk_size)) [0..<m])"
  using assms
proof (induction m arbitrary: chunks start)
  case 0
  then show ?case by (subst split_loop.simps) simp
next
  case (Suc m)
  let ?st = "chunk_size - overlap"
  have "start + int 0 * ?st < int (length text)" using Suc.prems(2) by blast
  then have lt: "start < int (length text)" by simp
  have a: "\<forall>k<m. (start + ?st) + int k * ?st < int (length text)"
  proof (intro allI impI)
    fix k assume "k < m"
    then have "start + int (Suc k) * ?st < int (length text)" using Suc.prems(2) by blast
    then show "(start + ?st) + int k * ?st < int (length text)" by (simp add: algebra_simps)
  qed
  have b: "int (length text) \<le> (start + ?st) + int m * ?st"
    using Suc.prems(3) by (simp add: algebra_simps)
  have ih: "split_loop text chunk_size overlap (chunks @ [py_slice text start (start + chunk_size)]) (start + ?st) =
     Some ((chunks @ [py_slice text start (start + chunk_size)]) @ map (\<lambda>k. py_slice text ((start + ?st) + int k * ?st)
                                   ((start + ?st) + int k * ?st + chunk_size)) [0..<m])"
    by (rule Suc.IH[OF Suc.prems(1) a b])
  have m: "map (\<lambda>k. py_slice text (start + int k * ?st) (start + int k * ?st + chunk_size)) [0..<Suc m]
     = py_slice text start (start + chunk_size) # map (\<lambda>k. py_slice text ((start + ?st) + int k * ?st)
                                   ((start + ?st) + int k * ?st + chunk_size)) [0..<m]"
    by (simp add: upt_conv_Cons map_Suc_upt[symmetric] algebra_simps del: upt_Suc)
  have "split_loop text chunk_size overlap chunks start = split_loop text chunk_size overlap (chunks @ [py_slice text start (start + chunk_size)]) (start + ?st)"
    using lt by (subst split_loop.simps) (simp add: Let_def algebra_simps)
  then show ?case unfolding ih m by simp
qed

lemma iter_count_upper:
  fixes st len :: int
  assumes "0 < st"
  shows "len \<le> ((len + st - 1) div st) * st"
proof -
  define q where "q = (len + st - 1) div st"
  define r where "r = (len + st - 1) mod st"
  have "r < st" using assms by (simp add: r_def)
  moreover have "q * st + r = len + st - 1"
    by (simp add: q_def r_def)
  ultimately show ?thesis unfolding q_def[symmetric] by linarith
qed

lemma iter_count_lower:
  fixes st len :: int
  assumes "0 < st" and "int k < (len + st - 1) div st"
  shows "int k * st < len"
proof -
  define q where "q = (len + st - 1) div st"
  define r where "r = (len + st - 1) mod st"
  have "int k \<le> q - 1" using assms(2) by (simp add: q_def)
  then have "int k * st \<le> (q - 1) * st"
    using assms(1) by (intro mult_right_mono) simp_all
  then have "int k * st \<le> q * st - st" by (simp add: algebra_simps)
  moreover have "0 \<le> r" using assms(1) by (simp add: r_def)
  moreover have "q * st + r = len + st - 1"
    by (simp add: q_def r_def)
  ultimately show ?thesis by linarith
qed

lemma split_valid:
  assumes "0 \<le> overlap" and "overlap < chunk_size"
  shows "\<exists>m. split_text_into_chunks text chunk_size overlap =
           Some (map (\<lambda>k. take (nat chunk_size) (drop (k * nat (chunk_size - overlap)) text)) [0..<m])
         \<and> (\<forall>k<m. k * nat (chunk_size - overlap) < length text)
         \<and> length text \<le> m * nat (chunk_size - overlap)"
proof -
  let ?st = "chunk_size - overlap"
  let ?len = "int (length text)"
  define m where "m = nat ((?len + ?st - 1) div ?st)"
  have st: "0 < ?st" using assms by simp
  have nn: "0 \<le> (?len + ?st - 1) div ?st" using st by (simp add: pos_imp_zdiv_nonneg_iff)
  then have im: "int m = (?len + ?st - 1) div ?st" by (simp add: m_def)
  have lo: "\<forall>k<m. 0 + int k * ?st < ?len"
  proof (intro allI impI)
    fix k assume "k < m"
    then have "int k < (?len + ?st - 1) div ?st" using im by linarith
    from iter_count_lower[OF st this] show "0 + int k * ?st < ?len" by simp
  qed
  have up: "?len \<le> 0 + int m * ?st"
    using iter_count_upper[OF st, of ?len] im by simp
  have cl: "split_text_into_chunks text chunk_size overlap =
     Some ([] @ map (\<lambda>k. py_slice text (0 + int k * ?st) (0 + int k * ?st + chunk_size)) [0..<m])"
    unfolding split_text_into_chunks_def by (rule split_loop_closed[OF st lo up])
  have sl: "py_slice text (0 + int k * ?st) (0 + int k * ?st + chunk_size)
            = take (nat chunk_size) (drop (k * nat ?st) text)" for k
  proof -
    have "0 \<le> int k * ?st" using st by simp
    moreover have "0 \<le> chunk_size" using assms by simp
    ultimately have "py_slice text (int k * ?st) (int k * ?st + chunk_size)
        = take (nat chunk_size) (drop (nat (int k * ?st)) text)" by (rule slice_nonneg)
    moreover have "nat (int k * ?st) = k * nat ?st" using st by (simp add: nat_mult_distrib)
    ultimately show ?thesis by simp
  qed
  have nst: "int (nat ?st) = ?st" using st by simp
  have "\<forall>k<m. k * nat ?st < length text"
  proof (intro allI impI)
    fix k assume "k < m"
    then have "int k * ?st < ?len" using lo by simp
    then have "int (k * nat ?st) < int (length text)" using nst by simp
    then show "k * nat ?st < length text" by linarith
  qed
  moreover have "length text \<le> m * nat ?st"
  proof -
    have "int (length text) \<le> int (m * nat ?st)" using up nst by simp
    then show ?thesis by linarith
  qed
  ultimately show ?thesis using cl sl by auto
qed

lemma split_diverges:
  assumes "split_loop text chunk_size overlap chunks start = Some y"
  shows "\<not> (chunk_size \<le> overlap \<and> start \<le> 0 \<and> text \<noteq> [])"
proof (rule split_loop.raw_induct
    [where P = "\<lambda>text chunk_size overlap chunks start y.
                  \<not> (chunk_size \<le> overlap \<and> start \<le> 0 \<and> text \<noteq> [])", OF _ assms])
  fix f :: "'a list \<Rightarrow> int \<Rightarrow> int \<Rightarrow> 'a list list \<Rightarrow> int \<Rightarrow> 'a list list option"
  fix t :: "'a list" and cs ov :: int and cks :: "'a list list" and st :: int and r :: "'a list list"
  assume ih: "\<And>t cs ov cks st r. f t cs ov cks st = Some r \<Longrightarrow> \<not> (cs \<le> ov \<and> st \<le> 0 \<and> t \<noteq> [])"
  assume body: "(if st < int (length t)
        then let end = st + cs; chunk = py_slice t st end
             in f t cs ov (cks @ [chunk]) (end - ov)
        else Some cks) = Some r"
  show "\<not> (cs \<le> ov \<and> st \<le> 0 \<and> t \<noteq> [])"
  proof
    assume a: "cs \<le> ov \<and> st \<le> 0 \<and> t \<noteq> []"
    then have "st < int (length t)" by (cases t) auto
    with body have "f t cs ov (cks @ [py_slice t st (st + cs)]) (st + cs - ov) = Some r"
      by (simp add: Let_def)
    from ih[OF this] a show False by simp
  qed
qed

lemma split_invalid:
  assumes "chunk_size \<le> overlap"
  shows "split_text_into_chunks text chunk_size overlap = (if text = [] then Some [] else None)"
proof (cases "text = []")
  case True
  then show ?thesis
    unfolding split_text_into_chunks_def by (subst split_loop.simps) simp
next
  case False
  have "split_loop text chunk_size overlap [] 0 = None"
  proof (cases "split_loop text chunk_size overlap [] 0")
    case None then show ?thesis .
  next
    case (Some y)
    from split_diverges[OF this] assms False show ?thesis by simp
  qed
  then show ?thesis using False by (simp add: split_text_into_chunks_def)
qed


lemma chunk_as_slice:
  assumes "0 < chunk_size" and "0 \<le> overlap" and "overlap < chunk_size"
    and "k * nat (chunk_size - overlap) < length text"
  shows "py_slice text (start_offset chunk_size overlap k) (end_offset text chunk_size overlap k)
         = take (nat chunk_size) (drop (k * nat (chunk_size - overlap)) text)"
proof -
  let ?s = "start_offset chunk_size overlap k"
  let ?e = "end_offset text chunk_size overlap k"
  have st: "int (nat (chunk_size - overlap)) = chunk_size - overlap" using assms(3) by simp
  have s: "?s = int (k * nat (chunk_size - overlap))"
    unfolding start_offset_def of_nat_mult st ..
  then have s0: "0 \<le> ?s" by linarith
  have ns: "nat ?s = k * nat (chunk_size - overlap)" unfolding s by (rule nat_int)
  have sl: "?s < int (length text)" unfolding s using assms(4) by linarith
  define c where "c = ?e - ?s"
  have c0: "0 \<le> c" using sl assms(1) by (simp add: c_def end_offset_def)
  have e: "?e = ?s + c" by (simp add: c_def)
  have "py_slice text ?s (?s + c) = take (nat c) (drop (nat ?s) text)"
    by (rule slice_nonneg[OF s0 c0])
  moreover have "take (nat c) (drop (nat ?s) text) = take (nat chunk_size) (drop (nat ?s) text)"
  proof (cases "?s + chunk_size \<le> int (length text)")
    case True
    then have "c = chunk_size" by (simp add: c_def end_offset_def)
    then show ?thesis by simp
  next
    case False
    then have "c = int (length text) - ?s" by (simp add: c_def end_offset_def)
    then have "nat c = length (drop (nat ?s) text)" using s0 by simp
    moreover have "length (drop (nat ?s) text) \<le> nat chunk_size" using False s0 by simp
    ultimately show ?thesis by simp
  qed
  ultimately show ?thesis using e ns by simp
qed

lemma ranges_cover:
  fixes chunk_size overlap :: int
  assumes "0 \<le> overlap" and "overlap < chunk_size"
    and lo: "\<forall>k<m. k * nat (chunk_size - overlap) < length text"
    and up: "length text \<le> m * nat (chunk_size - overlap)"
  shows "(\<Union>i<m. {start_offset chunk_size overlap i ..< end_offset text chunk_size overlap i})
         = {0 ..< int (length text)}"
proof (intro set_eqI iffI)
  fix x
  assume "x \<in> (\<Union>i<m. {start_offset chunk_size overlap i ..< end_offset text chunk_size overlap i})"
  then obtain i where "i < m" and x: "start_offset chunk_size overlap i \<le> x" "x < end_offset text chunk_size overlap i"
    by auto
  have "0 \<le> start_offset chunk_size overlap i" using assms by (simp add: start_offset_def)
  moreover have "end_offset text chunk_size overlap i \<le> int (length text)" by (simp add: end_offset_def)
  ultimately show "x \<in> {0 ..< int (length text)}" using x by simp
next
  fix x
  assume "x \<in> {0 ..< int (length text)}"
  then have x0: "0 \<le> x" and xl: "x < int (length text)" by simp_all
  let ?st = "chunk_size - overlap"
  have st: "0 < ?st" using assms by simp
  define i where "i = nat (x div ?st)"
  have "0 \<le> x div ?st" using x0 st by (simp add: pos_imp_zdiv_nonneg_iff)
  then have ii: "int i = x div ?st" by (simp add: i_def)
  have dm: "(x div ?st) * ?st + x mod ?st = x" by (rule div_mult_mod_eq)
  have m0: "0 \<le> x mod ?st" and m1: "x mod ?st < ?st" using st by simp_all
  have s: "start_offset chunk_size overlap i = (x div ?st) * ?st" by (simp add: start_offset_def ii)
  have le: "start_offset chunk_size overlap i \<le> x" using s dm m0 by linarith
  have "x < start_offset chunk_size overlap i + ?st" using s dm m1 by linarith
  then have "x < start_offset chunk_size overlap i + chunk_size" using assms(1) by linarith
  then have lt: "x < end_offset text chunk_size overlap i" using xl by (simp add: end_offset_def)
  have "i < m"
  proof (rule ccontr)
    assume "\<not> i < m"
    then have "m \<le> i" by simp
    then have "m * nat ?st \<le> i * nat ?st" by (rule mult_le_mono1)
    then have "int (length text) \<le> int (i * nat ?st)" using up by linarith
    also have "int (i * nat ?st) = start_offset chunk_size overlap i" using st by (simp add: start_offset_def)
    finally show False using le xl by linarith
  qed
  then show "x \<in> (\<Union>i<m. {start_offset chunk_size overlap i ..< end_offset text chunk_size overlap i})"
    using le lt by auto
qed

lemma overlap_shared:
  fixes c s ov :: nat
  assumes c: "c = s + ov" and full: "i * s + c \<le> length text"
  shows "trailing ov (take c (drop (i * s) text)) = leading ov (take c (drop (Suc i * s) text))"
proof -
  have len: "length (take c (drop (i * s) text)) = c" using full by simp
  have "trailing ov (take c (drop (i * s) text)) = drop s (take c (drop (i * s) text))"
    unfolding trailing_def len using c by simp
  also have "\<dots> = take ov (drop (s + i * s) text)"
    using c by (simp add: drop_take)
  also have "\<dots> = leading ov (take c (drop (Suc i * s) text))"
    using c by (simp add: leading_def)
  finally show ?thesis .
qed

lemma take_drop_nth:
  "take c (drop s xs) = map (\<lambda>j. xs ! j) [s ..< min (s + c) (length xs)]"
proof (cases "s \<le> length xs")
  case True
  have "take c (drop s xs) = take c (drop s (map (\<lambda>j. xs ! j) [0 ..< length xs]))"
    by (simp add: map_nth)
  also have "\<dots> = map (\<lambda>j. xs ! j) (take c (drop s [0 ..< length xs]))"
    by (simp only: drop_map take_map)
  also have "take c (drop s [0 ..< length xs]) = [s ..< min (s + c) (length xs)]"
  proof (cases "s + c \<le> length xs")
    case True
    then show ?thesis by (simp add: drop_upt take_upt)
  next
    case False
    then show ?thesis using True by (simp add: drop_upt)
  qed
  finally show ?thesis .
next
  case False
  then show ?thesis by simp
qed

lemma chunk_as_characters:
  assumes "0 < chunk_size" and "0 \<le> overlap" and "overlap < chunk_size"
    and "k * nat (chunk_size - overlap) < length text"
  shows "take (nat chunk_size) (drop (k * nat (chunk_size - overlap)) text)
         = map (\<lambda>j. text ! j) [nat (start_offset chunk_size overlap k) ..<
                                  nat (end_offset text chunk_size overlap k)]
       \<and> 0 \<le> start_offset chunk_size overlap k
       \<and> start_offset chunk_size overlap k < end_offset text chunk_size overlap k"
proof -
  let ?s = "start_offset chunk_size overlap k"
  let ?e = "end_offset text chunk_size overlap k"
  have st: "int (nat (chunk_size - overlap)) = chunk_size - overlap" using assms(3) by simp
  have s: "?s = int (k * nat (chunk_size - overlap))"
    unfolding start_offset_def of_nat_mult st ..
  have ns: "nat ?s = k * nat (chunk_size - overlap)" unfolding s by (rule nat_int)
  have s0: "0 \<le> ?s" unfolding s by simp
  have sl: "?s < int (length text)" unfolding s using assms(4) by linarith
  have lt: "?s < ?e" using sl assms(1) by (simp add: end_offset_def)
  have "int (nat ?s + nat chunk_size) = ?s + chunk_size" using s0 assms(1) by simp
  then have "?e = int (min (nat ?s + nat chunk_size) (length text))"
    unfolding end_offset_def of_nat_min by simp
  then have ne: "nat ?e = min (nat ?s + nat chunk_size) (length text)" by simp
  show ?thesis unfolding ne using take_drop_nth[of "nat chunk_size" "nat ?s" "text"] s0 lt
    by (simp add: ns)
qed

subsection \<open>Claims about the chunker\<close>

text \<open>
  Claim C1, as amended. The source has no check of the configuration and no
  \<open>ConfigurationError\<close>: with \<open>chunk_size > 0\<close> and \<open>overlap >= chunk_size\<close>,
  \<open>split_text_into_chunks\<close> raises nothing; on the empty text it returns the empty
  list, and on every other text \<open>start\<close> never grows, so the loop never ends.
\<close>

theorem split_invalid_config:
  assumes "0 < chunk_size" and "chunk_size \<le> overlap"
  shows "split_text_into_chunks text chunk_size overlap = (if text = [] then Some [] else None)"
  using assms(2) by (rule split_invalid)

theorem split_invalid_config_witness:
  "(0::int) < 5 \<and> (5::int) \<le> 7 \<and> split_text_into_chunks ''abc'' 5 7 = None"
  using split_invalid_config[of 5 7 "''abc''"] by simp

theorem split_invalid_config_counterexample:
  "split_text_into_chunks ([] :: char list) 5 5 = Some [] \<and> split_text_into_chunks ''a'' 5 5 = None"
  by (simp add: split_invalid)

text \<open>
  Claim C5. Under a valid configuration (\<open>chunk_size > 0\<close>,
  \<open>0 <= overlap < chunk_size\<close>) \<open>split_text_into_chunks\<close> returns. Chunk \<open>i\<close> of its
  result consists of exactly the characters of the text at the positions of the
  non-empty range \<open>[start_offset i, end_offset i)\<close>, which lies within the text (it is
  the slice \<open>text[start_offset i : end_offset i]\<close>); the union of these ranges is
  \<open>[0, len(text))\<close>; and the empty text gives the empty list.
\<close>

theorem split_coverage:
  assumes "0 < chunk_size" and "0 \<le> overlap" and "overlap < chunk_size"
  shows "\<exists>chunks. split_text_into_chunks text chunk_size overlap = Some chunks
     \<and> (\<forall>i<length chunks.
           0 \<le> start_offset chunk_size overlap i
           \<and> start_offset chunk_size overlap i < end_offset text chunk_size overlap i
           \<and> end_offset text chunk_size overlap i \<le> int (length text)
           \<and> chunks ! i = map (\<lambda>j. text ! j)
                 [nat (start_offset chunk_size overlap i) ..< nat (end_offset text chunk_size overlap i)]
           \<and> chunks ! i =
                py_slice text (start_offset chunk_size overlap i) (end_offset text chunk_size overlap i))
     \<and> (\<Union>i<length chunks. {start_offset chunk_size overlap i ..< end_offset text chunk_size overlap i})
          = {0 ..< int (length text)}
     \<and> (text = [] \<longrightarrow> chunks = [])"
proof -
  let ?st = "nat (chunk_size - overlap)"
  obtain m where sp: "split_text_into_chunks text chunk_size overlap =
           Some (map (\<lambda>k. take (nat chunk_size) (drop (k * ?st) text)) [0..<m])"
    and lo: "\<forall>k<m. k * ?st < length text"
    and up: "length text \<le> m * ?st"
    using split_valid[OF assms(2,3), of "text"] by blast
  let ?chunks = "map (\<lambda>k. take (nat chunk_size) (drop (k * ?st) text)) [0..<m]"
  have len: "length ?chunks = m" by simp
  have a: "\<forall>i<length ?chunks.
           0 \<le> start_offset chunk_size overlap i
           \<and> start_offset chunk_size overlap i < end_offset text chunk_size overlap i
           \<and> end_offset text chunk_size overlap i \<le> int (length text)
           \<and> ?chunks ! i = map (\<lambda>j. text ! j)
                 [nat (start_offset chunk_size overlap i) ..< nat (end_offset text chunk_size overlap i)]
           \<and> ?chunks ! i =
                py_slice text (start_offset chunk_size overlap i) (end_offset text chunk_size overlap i)"
  proof (intro allI impI)
    fix i assume "i < length ?chunks"
    then have i: "i < m" by simp
    then have l: "i * ?st < length text" using lo by blast
    have e: "end_offset text chunk_size overlap i \<le> int (length text)" by (simp add: end_offset_def)
    from chunk_as_slice[OF assms l] chunk_as_characters[OF assms l] i e
    show "0 \<le> start_offset chunk_size overlap i
           \<and> start_offset chunk_size overlap i < end_offset text chunk_size overlap i
           \<and> end_offset text chunk_size overlap i \<le> int (length text)
           \<and> ?chunks ! i = map (\<lambda>j. text ! j)
                 [nat (start_offset chunk_size overlap i) ..< nat (end_offset text chunk_size overlap i)]
           \<and> ?chunks ! i =
                py_slice text (start_offset chunk_size overlap i) (end_offset text chunk_size overlap i)"
      by simp
  qed
  have b: "(\<Union>i<length ?chunks. {start_offset chunk_size overlap i ..< end_offset text chunk_size overlap i})
          = {0 ..< int (length text)}"
    unfolding len by (rule ranges_cover[OF assms(2,3) lo up])
  have c: "text = [] \<longrightarrow> ?chunks = []"
  proof
    assume "text = []"
    then have "m = 0" using lo by (cases m) auto
    then show "?chunks = []" by simp
  qed
  show ?thesis using sp a b c by blast
qed

theorem split_coverage_witness:
  "(0::int) < 2 \<and> (0::int) \<le> 1 \<and> (1::int) < 2
   \<and> split_text_into_chunks ''abc'' 2 1 = Some [''ab'', ''bc'', ''c'']
   \<and> [''ab'', ''bc'', ''c''] ! 1 =
        map (\<lambda>j. ''abc'' ! j) [nat (start_offset 2 1 1) ..< nat (end_offset ''abc'' 2 1 1)]
   \<and> (\<Union>i<length [''ab'', ''bc'', ''c'']. {start_offset 2 1 i ..< end_offset ''abc'' 2 1 i})
        = {0 ..< int (length ''abc'')}"
proof -
  have sp: "split_text_into_chunks ''abc'' 2 1 = Some [''ab'', ''bc'', ''c'']"
    unfolding split_text_into_chunks_def
    by (simp add: split_loop.simps py_slice_def slice_index_def Let_def)
  from split_coverage[of 2 1 "''abc''"] sp
  have "(\<forall>i<length [''ab'', ''bc'', ''c''].
           [''ab'', ''bc'', ''c''] ! i = map (\<lambda>j. ''abc'' ! j)
                 [nat (start_offset 2 1 i) ..< nat (end_offset ''abc'' 2 1 i)])
     \<and> (\<Union>i<length [''ab'', ''bc'', ''c'']. {start_offset 2 1 i ..< end_offset ''abc'' 2 1 i})
          = {0 ..< int (length ''abc'')}"
    by simp
  note q = this
  have "(1::nat) < length [''ab'', ''bc'', ''c'']" by simp
  from q[THEN conjunct1, THEN spec, THEN mp, OF this] q[THEN conjunct2] sp
  show ?thesis by simp
qed

text \<open>
  Claim C7. A text of length 4300 split with \<open>chunk_size = 2000\<close> and \<open>overlap = 100\<close>
  gives exactly the three chunks \<open>text[0:2000]\<close>, \<open>text[1900:3900]\<close> and
  \<open>text[3800:4300]\<close>, of 2000, 2000 and 500 characters.
\<close>

theorem split_4300:
  assumes "length text = 4300"
  shows "split_text_into_chunks text 2000 100 =
           Some [py_slice text 0 2000, py_slice text 1900 3900, py_slice text 3800 4300]
         \<and> map length [py_slice text 0 2000, py_slice text 1900 3900, py_slice text 3800 4300]
             = [2000, 2000, 500]"
proof -
  have a: "\<forall>k<3. 0 + int k * (2000 - 100) < int (length text)"
    using assms by (auto simp: less_Suc_eq numeral_3_eq_3)
  have b: "int (length text) \<le> 0 + int 3 * (2000 - 100)" using assms by simp
  have "split_text_into_chunks text 2000 100 =
     Some ([] @ map (\<lambda>k. py_slice text (0 + int k * (2000 - 100)) (0 + int k * (2000 - 100) + 2000)) [0..<3])"
    unfolding split_text_into_chunks_def by (rule split_loop_closed[OF _ a b]) simp
  moreover have "[0..<3] = [0, 1, 2]" by (simp add: upt_rec)
  moreover have "py_slice text 3800 5800 = py_slice text 3800 4300"
    using assms by (simp add: py_slice_def slice_index_def Let_def)
  ultimately have "split_text_into_chunks text 2000 100 =
           Some [py_slice text 0 2000, py_slice text 1900 3900, py_slice text 3800 4300]" by simp
  moreover have "map length [py_slice text 0 2000, py_slice text 1900 3900, py_slice text 3800 4300] = [2000, 2000, 500]"
    using assms by (simp add: py_slice_def slice_index_def Let_def)
  ultimately show ?thesis by simp
qed

theorem split_4300_witness:
  "length (replicate 4300 (CHR ''x'')) = 4300
   \<and> split_text_into_chunks (replicate 4300 (CHR ''x'')) 2000 100 =
       Some [py_slice (replicate 4300 (CHR ''x'')) 0 2000,
             py_slice (replicate 4300 (CHR ''x'')) 1900 3900,
             py_slice (replicate 4300 (CHR ''x'')) 3800 4300]"
proof -
  have h: "length (replicate 4300 (CHR ''x'')) = 4300" by (rule length_replicate)
  from split_4300[OF h] h show ?thesis by blast
qed

text \<open>
  Claim C9, as amended. Under a valid configuration, for consecutive chunks \<open>i\<close>,
  \<open>i + 1\<close> of the result such that chunk \<open>i\<close> has the full length \<open>chunk_size\<close>, the
  last \<open>overlap\<close> characters of chunk \<open>i\<close> are the first \<open>overlap\<close> characters of
  chunk \<open>i + 1\<close>; and when \<open>2 * overlap <= chunk_size\<close>, chunk \<open>i\<close> has the full length
  as soon as chunk \<open>i + 2\<close> exists, that is for every pair but the last. With a larger
  overlap the clipped chunks at the end of the text break the property for pairs
  before the last one.
\<close>

theorem split_overlap:
  assumes "0 < chunk_size" and "0 \<le> overlap" and "overlap < chunk_size"
    and "split_text_into_chunks text chunk_size overlap = Some chunks"
    and "Suc i < length chunks"
  shows "(length (chunks ! i) = nat chunk_size \<longrightarrow>
            trailing (nat overlap) (chunks ! i) = leading (nat overlap) (chunks ! Suc i))
       \<and> (2 * overlap \<le> chunk_size \<and> Suc (Suc i) < length chunks \<longrightarrow>
            length (chunks ! i) = nat chunk_size)"
proof -
  let ?s = "nat (chunk_size - overlap)"
  let ?c = "nat chunk_size"
  let ?o = "nat overlap"
  obtain m where sp: "split_text_into_chunks text chunk_size overlap =
           Some (map (\<lambda>k. take ?c (drop (k * ?s) text)) [0..<m])"
    and lo: "\<forall>k<m. k * ?s < length text"
    using split_valid[OF assms(2,3), of "text"] by blast
  have ch: "chunks = map (\<lambda>k. take ?c (drop (k * ?s) text)) [0..<m]"
    using sp assms(4) by simp
  then have m: "length chunks = m" by simp
  have i: "i < m" and si: "Suc i < m" using assms(5) m by simp_all
  have ci: "chunks ! i = take ?c (drop (i * ?s) text)" using ch i by simp
  have csi: "chunks ! Suc i = take ?c (drop (Suc i * ?s) text)" using ch si by simp
  have c: "?c = ?s + ?o" using assms(2,3) by linarith
  have il: "i * ?s < length text" using lo i by blast
  have first: "length (chunks ! i) = ?c \<longrightarrow>
            trailing ?o (chunks ! i) = leading ?o (chunks ! Suc i)"
  proof
    assume "length (chunks ! i) = ?c"
    then have "?c \<le> length text - i * ?s" using ci by simp
    then have "i * ?s + ?c \<le> length text" using il by linarith
    from overlap_shared[OF c this] show "trailing ?o (chunks ! i) = leading ?o (chunks ! Suc i)"
      using ci csi by simp
  qed
  have second: "2 * overlap \<le> chunk_size \<and> Suc (Suc i) < length chunks \<longrightarrow>
            length (chunks ! i) = ?c"
  proof
    assume a: "2 * overlap \<le> chunk_size \<and> Suc (Suc i) < length chunks"
    then have "Suc (Suc i) < m" using m by simp
    then have "Suc (Suc i) * ?s < length text" using lo by blast
    then have "i * ?s + ?s + ?s < length text" by (simp add: algebra_simps)
    moreover have "?o \<le> ?s" using a assms(2) by linarith
    ultimately have "i * ?s + ?c \<le> length text" using c by linarith
    then show "length (chunks ! i) = ?c" using ci by simp
  qed
  show ?thesis using first second by blast
qed

theorem split_overlap_witness:
  "(0::int) < 4 \<and> (0::int) \<le> 1 \<and> (1::int) < 4
   \<and> split_text_into_chunks ''abcdefghij'' 4 1 = Some [''abcd'', ''defg'', ''ghij'', ''j'']
   \<and> Suc 0 < length [''abcd'', ''defg'', ''ghij'', ''j'']
   \<and> length ([''abcd'', ''defg'', ''ghij'', ''j''] ! 0) = nat 4
   \<and> 2 * (1::int) \<le> 4 \<and> Suc (Suc 0) < length [''abcd'', ''defg'', ''ghij'', ''j'']
   \<and> trailing (nat 1) ([''abcd'', ''defg'', ''ghij'', ''j''] ! 0)
       = leading (nat 1) ([''abcd'', ''defg'', ''ghij'', ''j''] ! Suc 0)"
proof -
  have sp: "split_text_into_chunks ''abcdefghij'' 4 1 = Some [''abcd'', ''defg'', ''ghij'', ''j'']"
    unfolding split_text_into_chunks_def
    by (simp add: split_loop.simps py_slice_def slice_index_def Let_def)
  have l: "Suc 0 < length [''abcd'', ''defg'', ''ghij'', ''j'']" by simp
  from split_overlap[OF _ _ _ sp l] sp show ?thesis by simp
qed

theorem split_overlap_counterexample:
  "split_text_into_chunks ''abcdefghijk'' 10 8 =
     Some [''abcdefghij'', ''cdefghijk'', ''efghijk'', ''ghijk'', ''ijk'', ''k'']
   \<and> trailing (nat 8) ([''abcdefghij'', ''cdefghijk'', ''efghijk'', ''ghijk'', ''ijk'', ''k''] ! 1)
      \<noteq> leading (nat 8) ([''abcdefghij'', ''cdefghijk'', ''efghijk'', ''ghijk'', ''ijk'', ''k''] ! 2)
   \<and> 2 + 1 < length [''abcdefghij'', ''cdefghijk'', ''efghijk'', ''ghijk'', ''ijk'', ''k'']"
  unfolding split_text_into_chunks_def
  by (simp add: split_loop.simps py_slice_def slice_index_def Let_def trailing_def leading_def)

section \<open>Properties of the merger\<close>

subsection \<open>Trimming and the deduplication loop\<close>

lemma strip_ends:
  assumes "strip sp s \<noteq> []"
  shows "\<not> sp (hd (strip sp s)) \<and> \<not> sp (last (strip sp s))"
proof -
  define d where "d = dropWhile sp s"
  define e where "e = dropWhile sp (rev d)"
  have st: "strip sp s = rev e" by (simp add: strip_def d_def e_def)
  have e: "e \<noteq> []" using assms st by simp
  then have he: "\<not> sp (hd e)" unfolding e_def by (rule hd_dropWhile)
  have "rev d = takeWhile sp (rev d) @ e" by (simp add: e_def)
  then have "last (rev d) = last e" using e by (metis last_appendR)
  moreover have d: "d \<noteq> []" using e by (auto simp: e_def)
  ultimately have "last e = hd d" by (simp add: last_rev)
  moreover have "\<not> sp (hd d)" using d unfolding d_def by (rule hd_dropWhile)
  ultimately have "\<not> sp (last e)" by simp
  then show ?thesis using he e by (simp add: st hd_rev last_rev)
qed

lemma strip_fixed:
  assumes "s = [] \<or> (\<not> sp (hd s) \<and> \<not> sp (last s))"
  shows "strip sp s = s"
proof (cases "s = []")
  case True
  then show ?thesis by (simp add: strip_def)
next
  case False
  then have h: "\<not> sp (hd s)" and l: "\<not> sp (last s)" using assms by simp_all
  have "dropWhile sp s = s" using False h by (cases s) simp_all
  moreover have "dropWhile sp (rev s) = rev s"
    using False l by (cases "rev s") (simp_all add: hd_rev[symmetric])
  ultimately show ?thesis by (simp add: strip_def)
qed

lemma strip_idem: "strip sp (strip sp s) = strip sp s"
  by (rule strip_fixed) (use strip_ends in blast)

lemma key_strip: "normalized_key sp lw (strip sp s) = normalized_key sp lw s"
  by (simp add: normalized_key_def strip_idem)

lemma loop_acc:
  "deduplicate_loop sp lw items seen unique = unique @ deduplicate_loop sp lw items seen []"
proof (induction items arbitrary: seen unique)
  case Nil
  then show ?case by simp
next
  case (Cons x xs)
  show ?case
    using Cons.IH[of "insert (lw (strip sp x)) seen" "unique @ [strip sp x]"]
      Cons.IH[of "insert (lw (strip sp x)) seen" "[strip sp x]"]
      Cons.IH[of seen unique]
    by (simp add: Let_def)
qed

lemma loop_Cons:
  "deduplicate_loop sp lw (x # xs) seen [] =
     (if normalized_key sp lw x \<noteq> [] \<and> normalized_key sp lw x \<notin> seen
      then strip sp x # deduplicate_loop sp lw xs (insert (normalized_key sp lw x) seen) []
      else deduplicate_loop sp lw xs seen [])"
  using loop_acc[of sp lw xs "insert (lw (strip sp x)) seen" "[strip sp x]"]
  by (simp add: Let_def normalized_key_def)

lemma loop_append:
  "deduplicate_loop sp lw (xs @ ys) seen [] =
     deduplicate_loop sp lw xs seen [] @
     deduplicate_loop sp lw ys (seen \<union> (normalized_key sp lw ` set xs - {[]})) []"
proof (induction xs arbitrary: seen)
  case Nil
  then show ?case by simp
next
  case (Cons x xs)
  let ?k = "normalized_key sp lw x"
  show ?case
  proof (cases "?k \<noteq> [] \<and> ?k \<notin> seen")
    case True
    have eq: "seen \<union> (normalized_key sp lw ` set (x # xs) - {[]})
             = insert ?k seen \<union> (normalized_key sp lw ` set xs - {[]})" using True by auto
    have a: "deduplicate_loop sp lw (x # xs @ ys) seen [] =
             strip sp x # deduplicate_loop sp lw (xs @ ys) (insert ?k seen) []"
      unfolding loop_Cons using True by (rule if_P)
    have b: "deduplicate_loop sp lw (x # xs) seen [] =
             strip sp x # deduplicate_loop sp lw xs (insert ?k seen) []"
      unfolding loop_Cons using True by (rule if_P)
    show ?thesis by (simp only: a b eq Cons.IH[of "insert ?k seen"] append_Cons)
  next
    case False
    have eq: "seen \<union> (normalized_key sp lw ` set (x # xs) - {[]})
             = seen \<union> (normalized_key sp lw ` set xs - {[]})" using False by auto
    have a: "deduplicate_loop sp lw (x # xs @ ys) seen [] = deduplicate_loop sp lw (xs @ ys) seen []"
      unfolding loop_Cons using False by (rule if_not_P)
    have b: "deduplicate_loop sp lw (x # xs) seen [] = deduplicate_loop sp lw xs seen []"
      unfolding loop_Cons using False by (rule if_not_P)
    show ?thesis by (simp only: a b eq Cons.IH[of seen] append_Cons)
  qed
qed

lemma deduplicate_snoc:
  "deduplicate sp lw (xs @ [x]) = deduplicate sp lw xs @
     (if normalized_key sp lw x \<noteq> [] \<and> normalized_key sp lw x \<notin> normalized_key sp lw ` set xs
      then [strip sp x] else [])"
  unfolding deduplicate_def loop_append[of sp lw xs "[x]" "{}"]
  by (simp add: loop_Cons del: deduplicate_loop.simps(2))

lemma union_spec_snoc:
  "union_spec sp lw (xs @ [x]) = union_spec sp lw xs @
     (if normalized_key sp lw x \<noteq> [] \<and> normalized_key sp lw x \<notin> normalized_key sp lw ` set xs
      then [strip sp x] else [])"
proof -
  let ?key = "normalized_key sp lw"
  let ?n = "length xs"
  have f: "filter (first_occurrence ?key (xs @ [x])) [0..<?n] = filter (first_occurrence ?key xs) [0..<?n]"
    by (rule filter_cong) (auto simp: first_occurrence_def nth_append)
  have m: "map (\<lambda>i. strip sp ((xs @ [x]) ! i)) (filter (first_occurrence ?key xs) [0..<?n])
         = map (\<lambda>i. strip sp (xs ! i)) (filter (first_occurrence ?key xs) [0..<?n])"
    by (rule map_cong) (auto simp: nth_append)
  have "(\<forall>j<?n. ?key (xs ! j) \<noteq> ?key x) \<longleftrightarrow> ?key x \<notin> ?key ` set xs"
  proof
    assume a: "\<forall>j<?n. ?key (xs ! j) \<noteq> ?key x"
    show "?key x \<notin> ?key ` set xs"
    proof
      assume "?key x \<in> ?key ` set xs"
      then obtain y where "y \<in> set xs" and "?key x = ?key y" by auto
      then obtain j where "j < ?n" and "?key (xs ! j) = ?key x" by (auto simp: in_set_conv_nth)
      with a show False by blast
    qed
  next
    assume a: "?key x \<notin> ?key ` set xs"
    show "\<forall>j<?n. ?key (xs ! j) \<noteq> ?key x"
    proof (intro allI impI)
      fix j assume "j < ?n"
      then have "?key (xs ! j) \<in> ?key ` set xs" by simp
      with a show "?key (xs ! j) \<noteq> ?key x" by auto
    qed
  qed
  then have l: "first_occurrence ?key (xs @ [x]) ?n \<longleftrightarrow> (?key x \<noteq> [] \<and> ?key x \<notin> ?key ` set xs)"
    by (simp add: first_occurrence_def nth_append)
  show ?thesis
    unfolding union_spec_def using f m l by simp
qed

lemma deduplicate_union_spec: "deduplicate sp lw items = union_spec sp lw items"
proof (induction items rule: rev_induct)
  case Nil
  then show ?case by (simp add: deduplicate_def union_spec_def)
next
  case (snoc x xs)
  then show ?case by (simp only: deduplicate_snoc union_spec_snoc)
qed

lemma extend_loop_concat:
  "extend_loop results (a, b, c) =
     (a @ concat (map companies results), b @ concat (map persons results),
      c @ concat (map events results))"
  by (induction results arbitrary: a b c) simp_all

lemma merge_as_deduplicate:
  "merge_news_results sp lw results =
     \<lparr>companies = deduplicate sp lw (concat (map companies results)),
      persons = deduplicate sp lw (concat (map persons results)),
      events = deduplicate sp lw (concat (map events results))\<rparr>"
  by (simp add: merge_news_results_def extend_loop_concat)

lemma deduplicate_set:
  "set (deduplicate_loop sp lw items seen []) \<subseteq>
     {strip sp x | x. x \<in> set items \<and> normalized_key sp lw x \<noteq> [] \<and> normalized_key sp lw x \<notin> seen}"
proof (induction items arbitrary: seen)
  case Nil
  then show ?case by simp
next
  case (Cons x xs)
  show ?case
    using Cons.IH[of seen] Cons.IH[of "insert (normalized_key sp lw x) seen"]
    by (auto simp: loop_Cons simp del: deduplicate_loop.simps(2))
qed

lemma deduplicate_distinct:
  "distinct (map (normalized_key sp lw) (deduplicate_loop sp lw items seen []))"
proof (induction items arbitrary: seen)
  case Nil
  then show ?case by simp
next
  case (Cons x xs)
  let ?k = "normalized_key sp lw x"
  have "?k \<notin> normalized_key sp lw ` set (deduplicate_loop sp lw xs (insert ?k seen) [])"
    using deduplicate_set[of sp lw xs "insert ?k seen"] by (auto simp: key_strip)
  then show ?case
    using Cons.IH[of seen] Cons.IH[of "insert ?k seen"]
    by (simp add: loop_Cons key_strip del: deduplicate_loop.simps(2))
qed

lemma deduplicate_fixed:
  assumes "\<forall>z\<in>set zs. strip sp z = z \<and> normalized_key sp lw z \<noteq> [] \<and> normalized_key sp lw z \<notin> seen"
    and "distinct (map (normalized_key sp lw) zs)"
  shows "deduplicate_loop sp lw zs seen [] = zs"
  using assms
proof (induction zs arbitrary: seen)
  case Nil
  then show ?case by simp
next
  case (Cons z zs)
  let ?k = "normalized_key sp lw z"
  have "\<forall>y\<in>set zs. strip sp y = y \<and> normalized_key sp lw y \<noteq> [] \<and> normalized_key sp lw y \<notin> insert ?k seen"
    using Cons.prems by (auto simp: image_iff)
  moreover have "distinct (map (normalized_key sp lw) zs)" using Cons.prems(2) by simp
  ultimately have "deduplicate_loop sp lw zs (insert ?k seen) [] = zs" by (rule Cons.IH)
  then show ?case using Cons.prems(1) by (simp add: loop_Cons del: deduplicate_loop.simps(2))
qed

lemma deduplicate_idem: "deduplicate sp lw (deduplicate sp lw items) = deduplicate sp lw items"
proof -
  let ?out = "deduplicate sp lw items"
  have "\<forall>z\<in>set ?out. strip sp z = z \<and> normalized_key sp lw z \<noteq> [] \<and> normalized_key sp lw z \<notin> {}"
    using deduplicate_set[of sp lw items "{}"]
    by (auto simp: deduplicate_def strip_idem key_strip)
  moreover have "distinct (map (normalized_key sp lw) ?out)"
    unfolding deduplicate_def by (rule deduplicate_distinct)
  ultimately have "deduplicate_loop sp lw ?out {} [] = ?out" by (rule deduplicate_fixed)
  then show ?thesis by (simp add: deduplicate_def)
qed

lemma deduplicate_clean:
  assumes "lw [] = []" and "s \<in> set (deduplicate sp lw items)"
  shows "s \<noteq> [] \<and> \<not> sp (hd s) \<and> \<not> sp (last s)"
proof -
  obtain x where s: "s = strip sp x" and k: "normalized_key sp lw x \<noteq> []"
    using assms(2) deduplicate_set[of sp lw items "{}"] by (auto simp: deduplicate_def)
  have "strip sp x \<noteq> []" using k assms(1) by (auto simp: normalized_key_def)
  then show ?thesis using strip_ends[of sp x] s by simp
qed

subsection \<open>Claims about the merger\<close>

text \<open>
  Claim C6. For each category \<open>merge_news_results\<close> flattens the lists of the results
  in their order and keeps, trimmed and in its original case, the first item of each
  non-empty normalized key (the item trimmed, then lowercased with \<open>str.lower\<close>):
  it computes \<open>mergeUnion_spec\<close>. On ASCII text, merging \<open>["Ecopetrol"]\<close> with
  \<open>[" ecopetrol "]\<close> gives exactly \<open>["Ecopetrol"]\<close>.
\<close>

theorem merge_union:
  "merge_news_results isspace lower results = mergeUnion_spec isspace lower results
   \<and> merge_news_results ascii_isspace ascii_lower
        [\<lparr>companies = [''Ecopetrol''], persons = [], events = []\<rparr>,
         \<lparr>companies = ['' ecopetrol ''], persons = [], events = []\<rparr>]
      = \<lparr>companies = [''Ecopetrol''], persons = [], events = []\<rparr>"
proof
  show "merge_news_results isspace lower results = mergeUnion_spec isspace lower results"
    by (simp add: merge_as_deduplicate mergeUnion_spec_def deduplicate_union_spec)
  show "merge_news_results ascii_isspace ascii_lower
        [\<lparr>companies = [''Ecopetrol''], persons = [], events = []\<rparr>,
         \<lparr>companies = ['' ecopetrol ''], persons = [], events = []\<rparr>]
      = \<lparr>companies = [''Ecopetrol''], persons = [], events = []\<rparr>"
    by code_simp
qed

theorem merge_union_witness:
  "mergeUnion_spec ascii_isspace ascii_lower
        [\<lparr>companies = [''Ecopetrol'', '' ''], persons = [''Ana''], events = []\<rparr>,
         \<lparr>companies = ['' ecopetrol ''], persons = [''ANA '', ''Luis''], events = []\<rparr>]
      = \<lparr>companies = [''Ecopetrol''], persons = [''Ana'', ''Luis''], events = []\<rparr>"
proof -
  have "merge_news_results ascii_isspace ascii_lower
        [\<lparr>companies = [''Ecopetrol'', '' ''], persons = [''Ana''], events = []\<rparr>,
         \<lparr>companies = ['' ecopetrol ''], persons = [''ANA '', ''Luis''], events = []\<rparr>]
      = \<lparr>companies = [''Ecopetrol''], persons = [''Ana'', ''Luis''], events = []\<rparr>"
    by code_simp
  then show ?thesis
    using merge_union[of ascii_isspace ascii_lower
        "[\<lparr>companies = [''Ecopetrol'', '' ''], persons = [''Ana''], events = []\<rparr>,
         \<lparr>companies = ['' ecopetrol ''], persons = [''ANA '', ''Luis''], events = []\<rparr>]"]
    by simp
qed

text \<open>
  Claim C8. The union merge is idempotent: merging the single result
  \<open>merge_news_results results\<close> again gives \<open>merge_news_results results\<close>.
\<close>

theorem merge_idempotent:
  "merge_news_results isspace lower [merge_news_results isspace lower results]
     = merge_news_results isspace lower results"
  by (simp add: merge_as_deduplicate deduplicate_idem)

theorem merge_idempotent_witness:
  "merge_news_results ascii_isspace ascii_lower
     [\<lparr>companies = [''Ecopetrol''], persons = [''Ana'', ''Luis''], events = []\<rparr>]
   = \<lparr>companies = [''Ecopetrol''], persons = [''Ana'', ''Luis''], events = []\<rparr>"
proof -
  have "merge_news_results ascii_isspace ascii_lower
        [\<lparr>companies = [''Ecopetrol'', '' ''], persons = [''Ana''], events = []\<rparr>,
         \<lparr>companies = ['' ecopetrol ''], persons = [''ANA '', ''Luis''], events = []\<rparr>]
      = \<lparr>companies = [''Ecopetrol''], persons = [''Ana'', ''Luis''], events = []\<rparr>"
    by code_simp
  then show ?thesis
    using merge_idempotent[of ascii_isspace ascii_lower
        "[\<lparr>companies = [''Ecopetrol'', '' ''], persons = [''Ana''], events = []\<rparr>,
         \<lparr>companies = ['' ecopetrol ''], persons = [''ANA '', ''Luis''], events = []\<rparr>]"]
    by simp
qed

text \<open>
  Claim C10. For every list of results, every string of each of the three lists of
  \<open>merge_news_results results\<close> is non-empty and neither starts nor ends with
  whitespace, and no two strings of the same list have the same normalized key.
  That the lowercasing of the empty string is empty is the one fact about
  \<open>str.lower\<close> that is used.
\<close>

theorem merge_output_clean:
  assumes "lower [] = []"
  shows "\<forall>out \<in> {companies (merge_news_results isspace lower results),
                  persons (merge_news_results isspace lower results),
                  events (merge_news_results isspace lower results)}.
           (\<forall>s \<in> set out. s \<noteq> [] \<and> \<not> isspace (hd s) \<and> \<not> isspace (last s))
           \<and> distinct (map (normalized_key isspace lower) out)"
proof -
  have "(\<forall>s \<in> set (deduplicate isspace lower items). s \<noteq> [] \<and> \<not> isspace (hd s) \<and> \<not> isspace (last s))
        \<and> distinct (map (normalized_key isspace lower) (deduplicate isspace lower items))" for items
    using deduplicate_clean[where lw = lower and sp = isspace, OF assms] deduplicate_distinct[of isspace lower items "{}"]
    by (simp add: deduplicate_def)
  then show ?thesis by (simp add: merge_as_deduplicate)
qed

theorem merge_output_clean_witness:
  "ascii_lower [] = []
   \<and> persons (merge_news_results ascii_isspace ascii_lower
        [\<lparr>companies = [''Ecopetrol'', '' ''], persons = [''Ana''], events = []\<rparr>,
         \<lparr>companies = ['' ecopetrol ''], persons = [''ANA '', '' Luis''], events = [''  '']\<rparr>])
       = [''Ana'', ''Luis'']
   \<and> list_all (\<lambda>s. s \<noteq> [] \<and> \<not> ascii_isspace (hd s) \<and> \<not> ascii_isspace (last s))
        (persons (merge_news_results ascii_isspace ascii_lower
          [\<lparr>companies = [''Ecopetrol'', '' ''], persons = [''Ana''], events = []\<rparr>,
           \<lparr>companies = ['' ecopetrol ''], persons = [''ANA '', '' Luis''], events = [''  '']\<rparr>]))
   \<and> distinct (map (normalized_key ascii_isspace ascii_lower)
        (persons (merge_news_results ascii_isspace ascii_lower
          [\<lparr>companies = [''Ecopetrol'', '' ''], persons = [''Ana''], events = []\<rparr>,
           \<lparr>companies = ['' ecopetrol ''], persons = [''ANA '', '' Luis''], events = [''  '']\<rparr>])))"
proof -
  have l: "ascii_lower [] = []" by (simp add: ascii_lower_def)
  have p: "persons (merge_news_results ascii_isspace ascii_lower
        [\<lparr>companies = [''Ecopetrol'', '' ''], persons = [''Ana''], events = []\<rparr>,
         \<lparr>companies = ['' ecopetrol ''], persons = [''ANA '', '' Luis''], events = [''  '']\<rparr>])
       = [''Ana'', ''Luis'']"
    by code_simp
  from merge_output_clean[where lower = ascii_lower and isspace = ascii_isspace, OF l] l p
  show ?thesis unfolding list_all_iff by blast
qed

section \<open>Properties of the two runners\<close>

subsection \<open>Failures of the collaborators\<close>

lemma consolidate_failure:
  assumes "final_invoke \<lparr>raw_companies = set (concat (map companies raw_results)),
                         raw_persons = set (concat (map persons raw_results)),
                         raw_events = set (concat (map events raw_results))\<rparr> = Inl e
           \<or> (\<exists>response.
                final_invoke \<lparr>raw_companies = set (concat (map companies raw_results)),
                              raw_persons = set (concat (map persons raw_results)),
                              raw_events = set (concat (map events raw_results))\<rparr> = Inr response
                \<and> final_parse response = Inl e)"
  shows "consolidate_results final_invoke final_parse raw_results = Inl e"
  using assms unfolding consolidate_results_def Let_def by (elim disjE exE conjE) simp_all

lemma run_failure:
  assumes "loader url = Inr (content # docs)" and "content \<noteq> []"
    and "consolidate_results final_invoke final_parse
           (gather_chunks ainvoke parse (split_text content)) = Inl e"
  shows "run loader split_text ainvoke parse final_invoke final_parse url = Inl e"
  using assms unfolding run_def load_content_def Let_def by simp

lemma process_chunks_acc:
  "process_chunks invoke parse ps results =
     results @ concat (map (\<lambda>(i, chunk).
        case extract_from_chunk invoke parse chunk i of Inl e \<Rightarrow> [] | Inr news \<Rightarrow> [news]) ps)"
proof (induction ps arbitrary: results)
  case Nil
  then show ?case by simp
next
  case (Cons p ps)
  obtain i chunk where p: "p = (i, chunk)" by (cases p)
  show ?case unfolding p
    by (cases "extract_from_chunk invoke parse chunk i") (simp_all add: Cons.IH)
qed

lemma process_chunks_member:
  assumes "i < length chunks"
    and "extract_from_chunk invoke parse (chunks ! i) (Suc i) = Inr news"
  shows "news \<in> set (process_chunks invoke parse (enumerate 1 chunks) [])"
proof -
  have "enumerate 1 chunks ! i = (Suc i, chunks ! i)"
    using assms(1) by (simp add: nth_enumerate_eq)
  moreover have "i < length (enumerate 1 chunks)" using assms(1) by simp
  ultimately have "(Suc i, chunks ! i) \<in> set (enumerate 1 chunks)" by (metis nth_mem)
  then show ?thesis
    unfolding process_chunks_acc using assms(2) by (force simp: image_iff)
qed

lemma deduplicate_covers:
  assumes "x \<in> set items" and "normalized_key sp lw x \<noteq> []" and "normalized_key sp lw x \<notin> seen"
  shows "normalized_key sp lw x \<in> normalized_key sp lw ` set (deduplicate_loop sp lw items seen [])"
  using assms
proof (induction items arbitrary: seen)
  case Nil
  then show ?case by simp
next
  case (Cons y ys)
  let ?ky = "normalized_key sp lw y"
  let ?kx = "normalized_key sp lw x"
  show ?case
  proof (cases "?ky \<noteq> [] \<and> ?ky \<notin> seen")
    case True
    then have l: "deduplicate_loop sp lw (y # ys) seen [] =
        strip sp y # deduplicate_loop sp lw ys (insert ?ky seen) []"
      unfolding loop_Cons by (rule if_P)
    show ?thesis
    proof (cases "?kx = ?ky")
      case True
      then have "?kx = normalized_key sp lw (strip sp y)" by (simp add: key_strip)
      then show ?thesis unfolding l by simp
    next
      case False
      then have "x \<in> set ys" and "?kx \<notin> insert ?ky seen" using Cons.prems by auto
      from Cons.IH[OF this(1) Cons.prems(2) this(2)] show ?thesis unfolding l by simp
    qed
  next
    case False
    then have l: "deduplicate_loop sp lw (y # ys) seen [] = deduplicate_loop sp lw ys seen []"
      unfolding loop_Cons by (rule if_not_P)
    have "x \<noteq> y" using False Cons.prems(2,3) by auto
    then have "x \<in> set ys" using Cons.prems(1) by simp
    from Cons.IH[OF this Cons.prems(2,3)] show ?thesis unfolding l .
  qed
qed

lemma merge_contains:
  assumes "news \<in> set results"
  shows "contains_data sp lw (merge_news_results sp lw results) news"
proof -
  have "normalized_key sp lw x = [] \<or>
        normalized_key sp lw x \<in> normalized_key sp lw ` set (deduplicate sp lw (concat (map f results)))"
    if "x \<in> set (f news)" for x and f :: "'a News \<Rightarrow> 'a list list"
  proof (cases "normalized_key sp lw x = []")
    case True
    then show ?thesis by simp
  next
    case False
    have "x \<in> set (concat (map f results))" using that assms by auto
    from deduplicate_covers[OF this False, of "{}"] show ?thesis by (simp add: deduplicate_def)
  qed
  then show ?thesis
    unfolding contains_data_def merge_as_deduplicate list_all_iff by simp
qed

lemma gather_nth:
  assumes "i < length chunks"
  shows "gather_chunks ainvoke parse chunks ! i = process_chunk ainvoke parse (chunks ! i) i"
  using assms by (simp add: gather_chunks_def nth_enumerate_eq)

lemma run_news_extraction_returns:
  assumes "loader url = Inr docs"
  shows "\<exists>chunks. split_text_into_chunks (case docs of [] \<Rightarrow> [] | d # _ \<Rightarrow> d) CHUNK_SIZE CHUNK_OVERLAP
            = Some chunks
         \<and> run_news_extraction sp lw loader invoke parse url =
             Some (Inr (merge_news_results sp lw (process_chunks invoke parse (enumerate 1 chunks) [])))"
proof -
  have "(0::int) \<le> CHUNK_OVERLAP" and "CHUNK_OVERLAP < CHUNK_SIZE"
    by (simp_all add: CHUNK_OVERLAP_def CHUNK_SIZE_def)
  from split_valid[OF this, of "case docs of [] \<Rightarrow> [] | d # _ \<Rightarrow> d"]
  obtain chunks where
    "split_text_into_chunks (case docs of [] \<Rightarrow> [] | d # _ \<Rightarrow> d) CHUNK_SIZE CHUNK_OVERLAP = Some chunks"
    by blast
  then show ?thesis using assms by (simp add: run_news_extraction_def Let_def)
qed

lemma extract_cases:
  "(case extract_from_chunk invoke parse chunk i of Inl e \<Rightarrow> [] | Inr news \<Rightarrow> [news]) =
     (case invoke i chunk of
        Inl e \<Rightarrow> []
      | Inr response \<Rightarrow>
          (case parse response of
             Inl e \<Rightarrow> [\<lparr>companies = [], persons = [], events = []\<rparr>]
           | Inr news \<Rightarrow> [news]))"
  by (simp add: extract_from_chunk_def split: sum.splits)

lemma process_chunks_entries:
  "process_chunks invoke parse ps [] =
     concat (map (\<lambda>(i, chunk).
        case invoke i chunk of
          Inl e \<Rightarrow> []
        | Inr response \<Rightarrow>
            (case parse response of
               Inl e \<Rightarrow> [\<lparr>companies = [], persons = [], events = []\<rparr>]
             | Inr news \<Rightarrow> [news])) ps)"
  unfolding process_chunks_acc[of invoke parse ps "[]"] extract_cases by simp

lemma process_chunks_length:
  "length (process_chunks invoke parse ps []) =
     length (filter (\<lambda>(i, chunk). \<not> isl (invoke i chunk)) ps)"
  unfolding process_chunks_entries
  by (induction ps) (auto split: sum.splits)

subsection \<open>Claims about the runners\<close>

text \<open>
  Claim C2, as amended. \<open>consolidate_results\<close> has no \<open>try\<close>: when the call of the
  consolidation model raises, or when its response is rejected by the final parser,
  \<open>consolidate_results\<close> raises that same exception and \<open>run\<close> lets it through,
  displaying and saving nothing. No union merge is computed in its place.
\<close>

theorem consolidation_failure_propagates:
  assumes "final_invoke \<lparr>raw_companies = set (concat (map companies raw_results)),
                         raw_persons = set (concat (map persons raw_results)),
                         raw_events = set (concat (map events raw_results))\<rparr> = Inl e
           \<or> (\<exists>response.
                final_invoke \<lparr>raw_companies = set (concat (map companies raw_results)),
                              raw_persons = set (concat (map persons raw_results)),
                              raw_events = set (concat (map events raw_results))\<rparr> = Inr response
                \<and> final_parse response = Inl e)"
    and "loader url = Inr (content # docs)" and "content \<noteq> []"
    and "gather_chunks ainvoke parse (split_text content) = raw_results"
  shows "consolidate_results final_invoke final_parse raw_results = Inl e
     \<and> run loader split_text ainvoke parse final_invoke final_parse url = Inl e"
proof -
  have c: "consolidate_results final_invoke final_parse raw_results = Inl e"
    using assms(1) by (rule consolidate_failure)
  then have "consolidate_results final_invoke final_parse
           (gather_chunks ainvoke parse (split_text content)) = Inl e"
    using assms(4) by simp
  with assms(2,3) have "run loader split_text ainvoke parse final_invoke final_parse url = Inl e"
    by (rule run_failure)
  with c show ?thesis by simp
qed

theorem consolidation_failure_propagates_witness:
  "page_loader ''url'' = Inr [''Ecopetrol''] \<and> ''Ecopetrol'' \<noteq> []
   \<and> consolidate_results failing_model failing_parser
      (gather_chunks fail_on_2 company_parser (one_chunk ''Ecopetrol'')) = Inl InvocationError
   \<and> run page_loader one_chunk fail_on_2 company_parser failing_model failing_parser ''url''
      = Inl InvocationError"
proof -
  have a: "failing_model \<lparr>raw_companies = set (concat (map companies (gather_chunks fail_on_2 company_parser (one_chunk ''Ecopetrol'')))),
                         raw_persons = set (concat (map persons (gather_chunks fail_on_2 company_parser (one_chunk ''Ecopetrol'')))),
                         raw_events = set (concat (map events (gather_chunks fail_on_2 company_parser (one_chunk ''Ecopetrol''))))\<rparr> = Inl InvocationError"
    by (simp add: failing_model_def)
  have l: "page_loader ''url'' = Inr (''Ecopetrol'' # [])" by (simp add: page_loader_def)
  have n: "''Ecopetrol'' \<noteq> []" by simp
  from consolidation_failure_propagates[where final_invoke = failing_model
      and final_parse = failing_parser and e = InvocationError
      and raw_results = "gather_chunks fail_on_2 company_parser (one_chunk ''Ecopetrol'')"
      and loader = page_loader and url = "''url''" and content = "''Ecopetrol''" and docs = "[]"
      and ainvoke = fail_on_2 and parse = company_parser and split_text = one_chunk,
      OF disjI1, OF a l n refl] l
  show ?thesis by simp
qed

theorem consolidation_failure_propagates_counterexample:
  "consolidate_results failing_model failing_parser
      [\<lparr>companies = [''Ecopetrol''], persons = [], events = []\<rparr>] = Inl InvocationError
   \<and> consolidate_results answering_model failing_parser
      [\<lparr>companies = [''Ecopetrol''], persons = [], events = []\<rparr>] = Inl OutputParserException
   \<and> run page_loader one_chunk fail_on_2 company_parser failing_model failing_parser ''url''
      = Inl InvocationError"
  by (simp add: consolidate_results_def run_def load_content_def failing_model_def failing_parser_def
      answering_model_def page_loader_def one_chunk_def Let_def)

text \<open>
  Claim C3, as amended. A failing extraction is caught where it happens and never
  ends the run. In the asynchronous extractor there is one \<open>News\<close> per chunk, and the
  entry of a chunk whose model call or parser raised is \<open>News()\<close>, with three empty
  lists; \<open>News\<close> has no field that records the failure. In the sequential runner the
  results are, in the order of the chunks, nothing for a chunk whose model call
  raises, an empty \<open>News\<close> for a chunk whose response is rejected by the parser and
  the parsed \<open>News\<close> otherwise, so that there are as many results as chunks whose
  model call returns; every chunk whose extraction returns is among the results that
  are merged, the merged result contains its data, and \<open>run_news_extraction\<close> returns
  that merged result whenever the page was loaded.
\<close>

theorem failure_isolation:
  "length (gather_chunks ainvoke aparse chunks) = length chunks
   \<and> (\<forall>i<length chunks.
        ((\<exists>e. ainvoke i (chunks ! i) = Inl e)
           \<or> (\<exists>response e. ainvoke i (chunks ! i) = Inr response \<and> aparse response = Inl e)
         \<longrightarrow> gather_chunks ainvoke aparse chunks ! i = \<lparr>companies = [], persons = [], events = []\<rparr>)
        \<and> (\<forall>response news. ainvoke i (chunks ! i) = Inr response \<and> aparse response = Inr news
             \<longrightarrow> gather_chunks ainvoke aparse chunks ! i = news))
   \<and> process_chunks invoke parse (enumerate 1 chunks) [] =
       concat (map (\<lambda>(i, chunk).
          case invoke i chunk of
            Inl e \<Rightarrow> []
          | Inr response \<Rightarrow>
              (case parse response of
                 Inl e \<Rightarrow> [\<lparr>companies = [], persons = [], events = []\<rparr>]
               | Inr news \<Rightarrow> [news])) (enumerate 1 chunks))
   \<and> length (process_chunks invoke parse (enumerate 1 chunks) []) =
       length (filter (\<lambda>(i, chunk). \<not> isl (invoke i chunk)) (enumerate 1 chunks))
   \<and> (\<forall>i<length chunks. \<forall>news.
        extract_from_chunk invoke parse (chunks ! i) (Suc i) = Inr news \<longrightarrow>
          news \<in> set (process_chunks invoke parse (enumerate 1 chunks) [])
          \<and> contains_data isspace lower
               (merge_news_results isspace lower (process_chunks invoke parse (enumerate 1 chunks) []))
               news)
   \<and> (\<forall>docs. loader url = Inr docs \<longrightarrow>
        (\<exists>split. split_text_into_chunks (case docs of [] \<Rightarrow> [] | d # _ \<Rightarrow> d) CHUNK_SIZE CHUNK_OVERLAP
                    = Some split
           \<and> run_news_extraction isspace lower loader invoke parse url =
               Some (Inr (merge_news_results isspace lower
                            (process_chunks invoke parse (enumerate 1 split) [])))))"
proof (intro conjI allI impI)
  show "length (gather_chunks ainvoke aparse chunks) = length chunks"
    by (simp add: gather_chunks_def)
next
  fix i
  assume i: "i < length chunks"
    and f: "(\<exists>e. ainvoke i (chunks ! i) = Inl e)
           \<or> (\<exists>response e. ainvoke i (chunks ! i) = Inr response \<and> aparse response = Inl e)"
  from f show "gather_chunks ainvoke aparse chunks ! i = \<lparr>companies = [], persons = [], events = []\<rparr>"
    unfolding gather_nth[OF i] process_chunk_def by (elim disjE exE conjE) simp_all
next
  fix i response news
  assume i: "i < length chunks"
    and s: "ainvoke i (chunks ! i) = Inr response \<and> aparse response = Inr news"
  then show "gather_chunks ainvoke aparse chunks ! i = news"
    unfolding gather_nth[OF i] process_chunk_def by simp
next
  show "process_chunks invoke parse (enumerate 1 chunks) [] =
       concat (map (\<lambda>(i, chunk).
          case invoke i chunk of
            Inl e \<Rightarrow> []
          | Inr response \<Rightarrow>
              (case parse response of
                 Inl e \<Rightarrow> [\<lparr>companies = [], persons = [], events = []\<rparr>]
               | Inr news \<Rightarrow> [news])) (enumerate 1 chunks))"
    by (rule process_chunks_entries)
next
  show "length (process_chunks invoke parse (enumerate 1 chunks) []) =
       length (filter (\<lambda>(i, chunk). \<not> isl (invoke i chunk)) (enumerate 1 chunks))"
    by (rule process_chunks_length)
next
  fix i news
  assume i: "i < length chunks"
    and e: "extract_from_chunk invoke parse (chunks ! i) (Suc i) = Inr news"
  show m: "news \<in> set (process_chunks invoke parse (enumerate 1 chunks) [])"
    using i e by (rule process_chunks_member)
  show "contains_data isspace lower
          (merge_news_results isspace lower (process_chunks invoke parse (enumerate 1 chunks) [])) news"
    using m by (rule merge_contains)
next
  fix docs
  assume "loader url = Inr docs"
  then show "\<exists>split. split_text_into_chunks (case docs of [] \<Rightarrow> [] | d # _ \<Rightarrow> d) CHUNK_SIZE CHUNK_OVERLAP
                    = Some split
           \<and> run_news_extraction isspace lower loader invoke parse url =
               Some (Inr (merge_news_results isspace lower
                            (process_chunks invoke parse (enumerate 1 split) [])))"
    by (rule run_news_extraction_returns)
qed

theorem failure_isolation_witness:
  "gather_chunks fail_on_2 company_parser [''a'', ''b'', ''c''] ! 2
     = \<lparr>companies = [], persons = [], events = []\<rparr>
   \<and> gather_chunks fail_on_2 company_parser [''a'', ''b'', ''c''] ! 0
     = \<lparr>companies = [''a''], persons = [], events = []\<rparr>
   \<and> extract_from_chunk fail_on_2 company_parser ([''a'', ''b'', ''c''] ! 0) (Suc 0)
     = Inr \<lparr>companies = [''a''], persons = [], events = []\<rparr>
   \<and> contains_data ascii_isspace ascii_lower
        (merge_news_results ascii_isspace ascii_lower
           (process_chunks fail_on_2 company_parser (enumerate 1 [''a'', ''b'', ''c'']) []))
        \<lparr>companies = [''a''], persons = [], events = []\<rparr>
   \<and> process_chunks fail_on_2 company_parser (enumerate 1 [''a'', ''b'', ''c'']) []
     = [\<lparr>companies = [''a''], persons = [], events = []\<rparr>,
        \<lparr>companies = [''c''], persons = [], events = []\<rparr>]
   \<and> length (process_chunks fail_on_2 company_parser (enumerate 1 [''a'', ''b'', ''c'']) []) = 2"
proof -
  have f: "fail_on_2 2 ([''a'', ''b'', ''c''] ! 2) = Inl InvocationError"
    by (simp add: fail_on_2_def)
  have s: "fail_on_2 0 ([''a'', ''b'', ''c''] ! 0) = Inr ''a''
      \<and> company_parser ''a'' = Inr \<lparr>companies = [''a''], persons = [], events = []\<rparr>"
    by (simp add: fail_on_2_def company_parser_def)
  have e: "extract_from_chunk fail_on_2 company_parser ([''a'', ''b'', ''c''] ! 0) (Suc 0)
     = Inr \<lparr>companies = [''a''], persons = [], events = []\<rparr>"
    by (simp add: extract_from_chunk_def fail_on_2_def company_parser_def)
  have l2: "2 < length [''a'', ''b'', ''c'']" and l0: "0 < length [''a'', ''b'', ''c'']" by simp_all
  note t = failure_isolation[where ainvoke = fail_on_2 and aparse = company_parser
      and invoke = fail_on_2 and parse = company_parser
      and chunks = "[''a'', ''b'', ''c'']" and isspace = ascii_isspace and lower = ascii_lower]
  have A2: "(\<exists>e. fail_on_2 2 ([''a'', ''b'', ''c''] ! 2) = Inl e)
      \<or> (\<exists>response e. fail_on_2 2 ([''a'', ''b'', ''c''] ! 2) = Inr response
            \<and> company_parser response = Inl e)"
    by (rule disjI1, rule exI, rule f)
  have a: "gather_chunks fail_on_2 company_parser [''a'', ''b'', ''c''] ! 2
     = \<lparr>companies = [], persons = [], events = []\<rparr>"
    by (rule t[THEN conjunct2, THEN conjunct1, THEN spec, THEN mp, OF l2,
          THEN conjunct1, THEN mp, OF A2])
  have b: "gather_chunks fail_on_2 company_parser [''a'', ''b'', ''c''] ! 0
     = \<lparr>companies = [''a''], persons = [], events = []\<rparr>"
    by (rule t[THEN conjunct2, THEN conjunct1, THEN spec, THEN mp, OF l0,
          THEN conjunct2, THEN spec, THEN spec, THEN mp, OF s])
  have c: "contains_data ascii_isspace ascii_lower
        (merge_news_results ascii_isspace ascii_lower
           (process_chunks fail_on_2 company_parser (enumerate 1 [''a'', ''b'', ''c'']) []))
        \<lparr>companies = [''a''], persons = [], events = []\<rparr>"
    by (rule t[THEN conjunct2, THEN conjunct2, THEN conjunct2, THEN conjunct2, THEN conjunct1,
          THEN spec, THEN mp, OF l0, THEN spec, THEN mp, OF e, THEN conjunct2])
  have d: "process_chunks fail_on_2 company_parser (enumerate 1 [''a'', ''b'', ''c'']) []
     = [\<lparr>companies = [''a''], persons = [], events = []\<rparr>,
        \<lparr>companies = [''c''], persons = [], events = []\<rparr>]"
    unfolding t[THEN conjunct2, THEN conjunct2, THEN conjunct1]
    by (simp add: fail_on_2_def company_parser_def)
  have n: "length (process_chunks fail_on_2 company_parser (enumerate 1 [''a'', ''b'', ''c'']) []) = 2"
    unfolding t[THEN conjunct2, THEN conjunct2, THEN conjunct2, THEN conjunct1]
    by (simp add: fail_on_2_def)
  show ?thesis by (rule conjI[OF a conjI[OF b conjI[OF e conjI[OF c conjI[OF d n]]]]])
qed

theorem failure_isolation_counterexample:
  "process_chunks fail_on_2 company_parser (enumerate 1 [''a'', ''b'', ''c'']) []
     = [\<lparr>companies = [''a''], persons = [], events = []\<rparr>,
        \<lparr>companies = [''c''], persons = [], events = []\<rparr>]
   \<and> length (process_chunks fail_on_2 company_parser (enumerate 1 [''a'', ''b'', ''c'']) [])
       \<noteq> length [''a'', ''b'', ''c'']"
  by (simp add: extract_from_chunk_def fail_on_2_def company_parser_def)

end
